theory Spec2Isabelle
  imports Main "HOL-Library.Word" "HOL-Library.Multiset"
begin

section \<open>JavaScript strings\<close>

text \<open>
  A JavaScript string is a sequence of UTF-16 code units: \<open>length\<close>, \<open>slice\<close> and the
  regular expressions without the \<open>u\<close> flag all count and cut code units. The ellipsis
  U+2026 and the bullet U+2022 that \<open>src/index.js\<close> writes are one code unit each.
\<close>

type_synonym jschar = "16 word"
type_synonym jsstring = "jschar list"

definition js :: "string \<Rightarrow> jsstring" where
  "js s = map (\<lambda>c. of_char c) s"

definition amp :: jschar where "amp = 0x26"
definition lt :: jschar where "lt = 0x3C"
definition gt :: jschar where "gt = 0x3E"
definition nl :: jschar where "nl = 0x0A"
definition ellipsis :: jschar where "ellipsis = 0x2026"
definition bullet :: jschar where "bullet = 0x2022"

text \<open>Template literals render a non-negative integer in decimal.\<close>

definition digit :: "nat \<Rightarrow> jschar" where
  "digit d = of_nat (48 + d)"

function show_nat :: "nat \<Rightarrow> jsstring" where
  "show_nat n = (if n < 10 then [digit n] else show_nat (n div 10) @ [digit (n mod 10)])"
  by pat_completeness auto
termination
  by (relation "measure id") auto

declare show_nat.simps [simp del]

definition show_int :: "int \<Rightarrow> jsstring" where
  "show_int i = (if i < 0 then js ''-'' @ show_nat (nat (- i)) else show_nat (nat i))"

text \<open>\<open>a || b\<close> on a string that may be undefined: the empty string is falsy too.\<close>

definition or_else :: "jsstring option \<Rightarrow> jsstring \<Rightarrow> jsstring" where
  "or_else a b = (case a of None \<Rightarrow> b | Some s \<Rightarrow> if s = [] then b else s)"

section \<open>Errors\<close>

datatype error =
    LoadError
  | PersistenceError
  | FetchNetworkError jsstring
  | TelegramApiError nat jsstring
  | InvalidJsonError
  | ParserError jsstring
  | ImapError jsstring

section \<open>The persistent store (src/index.js, lines 37-53)\<close>

text \<open>
  A message identifier is the server's UID (a number) or the synthesized
  \<open>fallback-...\<close> string.
\<close>

datatype uid = UidNum nat | UidStr jsstring

text \<open>
  The object held in \<open>db.data\<close>. Either key may be missing: \<open>None\<close> is "no such key",
  and \<open>lastEmailUid = Some None\<close> is the key holding \<open>null\<close>.
\<close>

record store_data =
  lastEmailUid :: "uid option option"
  processedUids :: "uid list option"

text \<open>What is at \<open>DB_FILE\<close>: nothing, text that is not JSON, or a JSON object.\<close>

datatype disk = Missing | Corrupt | Content store_data

text \<open>The \<open>Low\<close> instance: \<open>data\<close> (\<open>None\<close> is \<open>null\<close>) and the file behind its adapter.\<close>

record low =
  data :: "store_data option"
  on_disk :: disk

text \<open>
  lowdb's \<open>Low\<close> class, in the versions whose constructor takes the default data as its
  second argument (6 and later), as line 39 calls it:
  \<^verbatim>\<open>constructor(adapter, defaultData) { this.adapter = adapter; this.data = defaultData }\<close>
  \<^verbatim>\<open>async read() { const data = await this.adapter.read(); if (data) this.data = data }\<close>
  \<^verbatim>\<open>async write() { if (this.data) await this.adapter.write(this.data) }\<close>
  The \<open>JSONFile\<close> adapter reads \<open>null\<close> from a file that does not exist and throws on
  text that does not parse.
\<close>

definition Low_new :: "disk \<Rightarrow> store_data \<Rightarrow> low" where
  "Low_new f defaultData = \<lparr>data = Some defaultData, on_disk = f\<rparr>"

definition adapter_read :: "disk \<Rightarrow> error + store_data option" where
  "adapter_read f =
     (case f of Missing \<Rightarrow> Inr None | Corrupt \<Rightarrow> Inl LoadError | Content d \<Rightarrow> Inr (Some d))"

definition Low_read :: "low \<Rightarrow> error + low" where
  "Low_read db =
     (case adapter_read (on_disk db) of
        Inl e \<Rightarrow> Inl e
      | Inr None \<Rightarrow> Inr db
      | Inr (Some d) \<Rightarrow> Inr (db\<lparr>data := Some d\<rparr>))"

text \<open>\<open>ok\<close> says whether the file system accepts the write.\<close>

definition Low_write :: "bool \<Rightarrow> low \<Rightarrow> error + low" where
  "Low_write ok db =
     (case data db of
        None \<Rightarrow> Inr db
      | Some d \<Rightarrow> if ok then Inr (db\<lparr>on_disk := Content d\<rparr>) else Inl PersistenceError)"

text \<open>
  Line 41, \<^verbatim>\<open>db.data ||= { processedUids: [] };\<close>. An object is truthy, so \<open>||=\<close>
  assigns only when \<open>db.data\<close> is \<open>null\<close>.
\<close>

definition or_assign_data :: "low \<Rightarrow> low" where
  "or_assign_data db =
     (case data db of
        None \<Rightarrow> db\<lparr>data := Some \<lparr>lastEmailUid = None, processedUids = Some []\<rparr>\<rparr>
      | Some _ \<Rightarrow> db)"

text \<open>
  Lines 38-42, run once when the module loads:
  \<^verbatim>\<open>const db = new Low(adapter, { lastEmailUid: null });\<close>
  \<^verbatim>\<open>await db.read();\<close>
  \<^verbatim>\<open>db.data ||= { processedUids: [] };\<close>
  \<^verbatim>\<open>await db.write();\<close>
  \<open>f\<close> is what is at \<open>DB_FILE\<close> then. An error here rejects the top-level \<open>await\<close> and
  ends the process.
\<close>

definition init_store :: "disk \<Rightarrow> bool \<Rightarrow> error + low" where
  "init_store f write_ok =
     (case Low_read (Low_new f \<lparr>lastEmailUid = Some None, processedUids = None\<rparr>) of
        Inl e \<Rightarrow> Inl e
      | Inr db \<Rightarrow> Low_write write_ok (or_assign_data db))"

text \<open>
  \<^verbatim>\<open>return db?.data?.processedUids?.includes(uid);\<close>
  The result is \<open>undefined\<close> (\<open>None\<close>) when \<open>data\<close> or the key is missing.
\<close>

definition hasProcessed :: "low \<Rightarrow> uid \<Rightarrow> bool option" where
  "hasProcessed db u =
     (case data db of
        None \<Rightarrow> None
      | Some d \<Rightarrow> (case processedUids d of None \<Rightarrow> None | Some xs \<Rightarrow> Some (u \<in> set xs)))"

text \<open>The truthiness that \<open>if (hasProcessed(uid))\<close> tests.\<close>

definition truthy :: "bool option \<Rightarrow> bool" where
  "truthy r = (r = Some True)"

text \<open>\<open>xs.slice(-k)\<close>: the last \<open>k\<close> elements, all of them when there are fewer.\<close>

definition slice_last :: "nat \<Rightarrow> 'a list \<Rightarrow> 'a list" where
  "slice_last k xs = drop (length xs - k) xs"

text \<open>
  Lines 47-53. The push and the cut change the object in memory before the write; a
  write that throws leaves them in place. The result is the store and the error thrown,
  if any.
\<close>

definition markProcessed :: "bool \<Rightarrow> low \<Rightarrow> uid \<Rightarrow> low \<times> error option" where
  "markProcessed write_ok db u =
     (let pushed =
            (case data db of
               None \<Rightarrow> db
             | Some d \<Rightarrow>
                 (case processedUids d of
                    None \<Rightarrow> db
                  | Some xs \<Rightarrow> db\<lparr>data := Some (d\<lparr>processedUids := Some (xs @ [u])\<rparr>)\<rparr>));
          cut =
            (case data pushed of
               None \<Rightarrow> pushed
             | Some d \<Rightarrow>
                 (case processedUids d of
                    None \<Rightarrow> pushed
                  | Some xs \<Rightarrow>
                      if length xs > 2000
                      then pushed\<lparr>data := Some (d\<lparr>processedUids := Some (slice_last 2000 xs)\<rparr>)\<rparr>
                      else pushed))
      in (case Low_write write_ok cut of Inl e \<Rightarrow> (cut, Some e) | Inr db' \<Rightarrow> (db', None)))"

text \<open>A run of \<open>markProcessed\<close> calls, each with its identifier and its write outcome.\<close>

definition markProcessed_all :: "low \<Rightarrow> (uid \<times> bool) list \<Rightarrow> low" where
  "markProcessed_all db calls = fold (\<lambda>(u, ok) d. fst (markProcessed ok d u)) calls db"

text \<open>The sequence the store retains, when it has one.\<close>

definition seen :: "low \<Rightarrow> uid list option" where
  "seen db = (case data db of None \<Rightarrow> None | Some d \<Rightarrow> processedUids d)"

section \<open>The Telegram sender (src/index.js, lines 55-81)\<close>

record config =
  TELEGRAM_BOT_TOKEN :: jsstring
  TELEGRAM_CHAT_ID :: jsstring
  MAX_BODY_CHARS :: int

text \<open>The JSON body of the request (lines 58-64).\<close>

record payload =
  chat_id :: jsstring
  msg_text :: jsstring
  parse_mode :: jsstring
  disable_web_page_preview :: bool

text \<open>
  What one \<open>fetch\<close> call meets: the request fails in the network, or a response
  arrives with its status, its body text, and whether that text parses as JSON.
\<close>

datatype response = NetworkFailure jsstring | HttpResponse nat jsstring bool

datatype criterion = UNSEEN | SINCE jsstring

text \<open>What the program does to the outside, in order.\<close>

datatype event =
    SearchReq "criterion list"
  | FetchReq "nat list"
  | HttpPost jsstring payload
  | Sleep nat
  | LogSearchError error
  | LogFetchError error
  | LogParserError error
  | LogSendFailed error
  | LogSent uid jsstring

text \<open>\<open>res.ok\<close>: the status is in the range 200-299.\<close>

definition res_ok :: "nat \<Rightarrow> bool" where
  "res_ok st = (200 \<le> st \<and> st \<le> 299)"

text \<open>The function handed to \<open>pRetry\<close> (lines 67-78): one POST, then the result.\<close>

definition attempt :: "jsstring \<Rightarrow> payload \<Rightarrow> response \<Rightarrow> event list \<times> (error + jsstring)" where
  "attempt url body r =
     ([HttpPost url body],
      (case r of
         NetworkFailure m \<Rightarrow> Inl (FetchNetworkError m)
       | HttpResponse st txt is_json \<Rightarrow>
           if \<not> res_ok st then Inl (TelegramApiError st txt)
           else if is_json then Inr txt
           else Inl InvalidJsonError))"

text \<open>
  p-retry: run the function; when it throws and retries are left, wait
  \<open>minTimeout * factor ^ (attemptNumber - 1)\<close> milliseconds and run it again; when none
  is left, throw the last error. \<open>run k\<close> is the \<open>k\<close>-th run of the function (from 1).
\<close>

record pRetry_options =
  retries :: nat
  factor :: nat
  minTimeout :: nat

fun pRetry_from ::
  "pRetry_options \<Rightarrow> (nat \<Rightarrow> event list \<times> (error + 'a)) \<Rightarrow> nat \<Rightarrow> nat
     \<Rightarrow> event list \<times> (error + 'a)" where
  "pRetry_from opts run attemptNumber 0 = run attemptNumber"
| "pRetry_from opts run attemptNumber (Suc retriesLeft) =
     (case run attemptNumber of
        (evs, Inr v) \<Rightarrow> (evs, Inr v)
      | (evs, Inl e) \<Rightarrow>
          (case pRetry_from opts run (Suc attemptNumber) retriesLeft of
             (evs', r) \<Rightarrow>
               (evs @ Sleep (minTimeout opts * factor opts ^ (attemptNumber - 1)) # evs', r)))"

definition pRetry ::
  "(nat \<Rightarrow> event list \<times> (error + 'a)) \<Rightarrow> pRetry_options \<Rightarrow> event list \<times> (error + 'a)" where
  "pRetry run opts = pRetry_from opts run 1 (retries opts)"

text \<open>
  \<open>sendTelegramMessage(text)\<close>, called with the text only. The options are
  \<open>{ retries: 3, factor: 2 }\<close>; \<open>minTimeout\<close> is left at p-retry's default, 1000 ms.
  \<open>transport k\<close> is what the \<open>k\<close>-th request meets.
\<close>

definition sendTelegramMessage ::
  "config \<Rightarrow> (nat \<Rightarrow> response) \<Rightarrow> jsstring \<Rightarrow> event list \<times> (error + jsstring)" where
  "sendTelegramMessage cfg transport txt =
     (let url = js ''https://api.telegram.org/bot'' @ TELEGRAM_BOT_TOKEN cfg @ js ''/sendMessage'';
          body = \<lparr>chat_id = TELEGRAM_CHAT_ID cfg, msg_text = txt, parse_mode = js ''HTML'',
                  disable_web_page_preview = True\<rparr>
      in pRetry (\<lambda>k. attempt url body (transport k))
           \<lparr>retries = 3, factor = 2, minTimeout = 1000\<rparr>)"

section \<open>Escaping and trimming (src/index.js, lines 83-91)\<close>

text \<open>\<open>s.replace(/c/g, rep)\<close> for a one-character pattern, \<open>rep\<close> holding no \<open>$\<close>.\<close>

definition replace_all :: "jschar \<Rightarrow> jsstring \<Rightarrow> jsstring \<Rightarrow> jsstring" where
  "replace_all c rep s = concat (map (\<lambda>x. if x = c then rep else [x]) s)"

definition escapeHtml :: "jsstring \<Rightarrow> jsstring" where
  "escapeHtml str =
     replace_all gt (js ''&gt;'') (replace_all lt (js ''&lt;'') (replace_all amp (js ''&amp;'') str))"

text \<open>
  \<open>s.slice(0, e)\<close> for an integer \<open>e\<close>: a negative end counts from the end of the
  string, and both are clamped to the string.
\<close>

definition slice0 :: "jsstring \<Rightarrow> int \<Rightarrow> jsstring" where
  "slice0 s e =
     (let len = int (length s);
          to = (if e < 0 then max (len + e) 0 else min e len)
      in take (nat to) s)"

text \<open>\<open>n\<close> is \<open>Number(MAX_BODY_CHARS)\<close>, an integer here; the empty string is falsy.\<close>

definition shorten :: "jsstring \<Rightarrow> int \<Rightarrow> jsstring" where
  "shorten s n =
     (if s = [] then []
      else if int (length s) \<le> n then s
      else slice0 s (n - 1) @ [ellipsis])"

text \<open>
  \<open>html.replace(/<[^>]+>/g, "")\<close>: at a \<open><\<close>, the match takes every following code unit
  that is not \<open>>\<close> (at least one) and the \<open>>\<close> after them; where there is no such match
  the \<open><\<close> stays and the scan goes on behind it.
\<close>

function strip_tags :: "jsstring \<Rightarrow> jsstring" where
  "strip_tags [] = []"
| "strip_tags (c # cs) =
     (if c = lt \<and> takeWhile (\<lambda>x. x \<noteq> gt) cs \<noteq> [] \<and> dropWhile (\<lambda>x. x \<noteq> gt) cs \<noteq> []
      then strip_tags (tl (dropWhile (\<lambda>x. x \<noteq> gt) cs))
      else c # strip_tags cs)"
  by pat_completeness auto
termination
proof (relation "measure length")
  show "wf (measure length)" by simp
next
  fix c :: jschar and cs :: jsstring
  have "length (tl (dropWhile (\<lambda>x. x \<noteq> gt) cs)) \<le> length cs"
    using length_dropWhile_le [of "\<lambda>x. x \<noteq> gt" cs] by simp
  then show "(tl (dropWhile (\<lambda>x. x \<noteq> gt) cs), c # cs) \<in> measure length"
    by simp
next
  fix c :: jschar and cs :: jsstring
  show "(cs, c # cs) \<in> measure length" by simp
qed

section \<open>The message text (src/index.js, lines 181-213)\<close>

text \<open>An attachment as mailparser describes it; \<open>filename\<close> may be undefined.\<close>

record attachment =
  filename :: "jsstring option"
  contentType :: jsstring
  size_bytes :: nat

text \<open>
  The parsed mail. \<open>from_text\<close> is \<open>parsed.from?.text\<close>, \<open>date_utc\<close> is
  \<open>parsed.date.toUTCString()\<close> when there is a date, \<open>text_body\<close> and \<open>html_body\<close> are
  \<open>parsed.text\<close> and \<open>parsed.html\<close>; \<open>None\<close> is a missing (falsy) field.
\<close>

record parsed =
  from_text :: "jsstring option"
  subject :: "jsstring option"
  date_utc :: "jsstring option"
  text_body :: "jsstring option"
  html_body :: "jsstring option"
  attachments :: "attachment list"

text \<open>\<open>parts.join(sep)\<close>.\<close>

fun join :: "jsstring \<Rightarrow> jsstring list \<Rightarrow> jsstring" where
  "join sep [] = []"
| "join sep [x] = x"
| "join sep (x # y # ys) = x @ sep @ join sep (y # ys)"

text \<open>
  Lines 185-191: \<open>parsed.text || (parsed.html ? parsed.html.replace(/<[^>]+>/g, "") : "")\<close>,
  escaped and then trimmed.
\<close>

definition body_source :: "parsed \<Rightarrow> jsstring" where
  "body_source p =
     or_else (text_body p)
       (case html_body p of None \<Rightarrow> [] | Some h \<Rightarrow> if h = [] then [] else strip_tags h)"

definition bodyText :: "config \<Rightarrow> parsed \<Rightarrow> jsstring" where
  "bodyText cfg p = shorten (escapeHtml (body_source p)) (MAX_BODY_CHARS cfg)"

text \<open>Lines 199-202, the line of one attachment.\<close>

definition attachment_line :: "attachment \<Rightarrow> jsstring" where
  "attachment_line a =
     [bullet] @ js '' '' @ or_else (filename a) (js ''unnamed'') @ js '' ('' @ contentType a
       @ js '', '' @ show_nat (size_bytes a) @ js '' bytes)''"

text \<open>Lines 194-205.\<close>

definition attachmentsSummary :: "attachment list \<Rightarrow> jsstring" where
  "attachmentsSummary atts =
     (if atts = [] then []
      else [nl] @ js ''Attachments ('' @ show_nat (length atts) @ js ''):'' @ [nl]
             @ join [nl] (map attachment_line atts))"

text \<open>Lines 181-183 and 207-213.\<close>

definition message :: "config \<Rightarrow> parsed \<Rightarrow> jsstring" where
  "message cfg p =
     js ''<b>New Email</b>'' @ [nl]
       @ js ''<b>From:</b> '' @ escapeHtml (or_else (from_text p) (js ''Unknown'')) @ [nl]
       @ js ''<b>Subject:</b> '' @ escapeHtml (or_else (subject p) (js ''(no subject)'')) @ [nl]
       @ js ''<b>Date:</b> '' @ escapeHtml (case date_utc p of None \<Rightarrow> [] | Some d \<Rightarrow> d)
       @ [nl, nl] @ bodyText cfg p @ attachmentsSummary (attachments p)"

section \<open>The search date (src/index.js, lines 120-145)\<close>

text \<open>
  The calendar fields of a \<open>Date\<close> in local time, named by their getters; \<open>getMonth\<close>
  counts from 0.
\<close>

record local_date =
  getFullYear :: int
  getMonth :: int
  getDate :: int

text \<open>
  The day number of a civil date (days since 1 January 1970, month from 1) and back, in
  the proleptic Gregorian calendar that \<open>Date\<close> uses.
\<close>

definition days_from_civil :: "int \<Rightarrow> int \<Rightarrow> int \<Rightarrow> int" where
  "days_from_civil y m d =
     (let y' = (if m \<le> 2 then y - 1 else y);
          era = y' div 400;
          yoe = y' - era * 400;
          doy = (153 * (if m > 2 then m - 3 else m + 9) + 2) div 5 + d - 1;
          doe = yoe * 365 + yoe div 4 - yoe div 100 + doy
      in era * 146097 + doe - 719468)"

definition civil_from_days :: "int \<Rightarrow> local_date" where
  "civil_from_days z =
     (let z' = z + 719468;
          era = z' div 146097;
          doe = z' - era * 146097;
          yoe = (doe - doe div 1460 + doe div 36524 - doe div 146096) div 365;
          doy = doe - (365 * yoe + yoe div 4 - yoe div 100);
          mp = (5 * doy + 2) div 153;
          d = doy - (153 * mp + 2) div 5 + 1;
          m = (if mp < 10 then mp + 3 else mp - 9);
          y = yoe + era * 400
      in \<lparr>getFullYear = (if m \<le> 2 then y + 1 else y), getMonth = m - 1, getDate = d\<rparr>)"

text \<open>
  \<open>d.setDate(v)\<close>: the day \<open>v\<close> of the month of \<open>d\<close>, where a \<open>v\<close> outside the month runs
  over into the months before or after.
\<close>

definition setDate :: "local_date \<Rightarrow> int \<Rightarrow> local_date" where
  "setDate d v = civil_from_days (days_from_civil (getFullYear d) (getMonth d + 1) 1 + v - 1)"

definition month_names :: "jsstring list" where
  "month_names =
     [js ''Jan'', js ''Feb'', js ''Mar'', js ''Apr'', js ''May'', js ''Jun'',
      js ''Jul'', js ''Aug'', js ''Sep'', js ''Oct'', js ''Nov'', js ''Dec'']"

text \<open>\<open>imapDate(days)\<close>, with the \<open>new Date()\<close> it reads as the argument \<open>now\<close>.\<close>

definition imapDate :: "int \<Rightarrow> local_date \<Rightarrow> jsstring" where
  "imapDate days now =
     (let d = setDate now (getDate now - days);
          mon = (if 0 \<le> getMonth d \<and> getMonth d < 12 then month_names ! nat (getMonth d)
                 else js ''undefined'')
      in show_int (getDate d) @ js ''-'' @ mon @ js ''-'' @ show_int (getFullYear d))"

text \<open>
  Line 145, \<open>const sinceDate = imapDate(30)\<close>, is a statement of the module: it runs once,
  when the process loads the module, and \<open>loaded\<close> is the date of that moment.
\<close>

definition sinceDate :: "local_date \<Rightarrow> jsstring" where
  "sinceDate loaded = imapDate 30 loaded"

section \<open>The poll (src/index.js, lines 147-242)\<close>

text \<open>
  One message of the fetch stream with everything its handler meets: the UID of its
  attributes (undefined when none arrived), what \<open>simpleParser\<close> makes of the body, the
  \<open>${Date.now()}-${Math.random()}\<close> a fallback identifier would get, what the requests
  to Telegram meet, and whether the store file can be written.
\<close>

record fetched =
  attrs_uid :: "nat option"
  parse_result :: "error + parsed"
  fallback_suffix :: jsstring
  transport :: "nat \<Rightarrow> response"
  write_ok :: bool

text \<open>Lines 172-175: \<open>!uid\<close> holds for an undefined UID and for 0.\<close>

definition message_uid :: "fetched \<Rightarrow> uid" where
  "message_uid m =
     (case attrs_uid m of
        None \<Rightarrow> UidStr (js ''fallback-'' @ fallback_suffix m)
      | Some n \<Rightarrow> if n = 0 then UidStr (js ''fallback-'' @ fallback_suffix m) else UidNum n)"

text \<open>
  The handler of one message body (lines 169-227), from the parsed mail to its last log
  line. It never throws: each failure ends in a log line.
\<close>

definition on_body :: "config \<Rightarrow> low \<Rightarrow> fetched \<Rightarrow> low \<times> event list" where
  "on_body cfg db m =
     (case parse_result m of
        Inl err \<Rightarrow> (db, [LogParserError err])
      | Inr p \<Rightarrow>
          if truthy (hasProcessed db (message_uid m)) then (db, [])
          else
            (case sendTelegramMessage cfg (transport m) (message cfg p) of
               (evs, Inl e) \<Rightarrow> (db, Sleep 5000 # evs @ [LogSendFailed e])
             | (evs, Inr _) \<Rightarrow>
                 (case markProcessed (write_ok m) db (message_uid m) of
                    (db', Some e) \<Rightarrow> (db', Sleep 5000 # evs @ [LogSendFailed e])
                  | (db', None) \<Rightarrow>
                      (db', Sleep 5000 # evs
                         @ [LogSent (message_uid m) (or_else (subject p) (js ''(no subject)''))]))))"

text \<open>
  The handlers of the messages of one fetch stream. The code starts the handler of each
  message when its body arrives and lets the handlers interleave at their \<open>await\<close>s (the
  5 s wait, the requests, the write); the poll's promise resolves when the stream ends,
  not when the handlers do. The model takes one schedule of these: each handler runs to
  its end before the next one starts, in the order of the stream, and the result is the
  store and the events when the last handler is done. What is proved of a whole stream
  below is stated so that it does not depend on this order, or says that it does.
\<close>

fun process_stream :: "config \<Rightarrow> low \<Rightarrow> fetched list \<Rightarrow> low \<times> event list" where
  "process_stream cfg db [] = (db, [])"
| "process_stream cfg db (m # ms) =
     (case on_body cfg db m of
        (db1, evs1) \<Rightarrow>
          (case process_stream cfg db1 ms of (db2, evs2) \<Rightarrow> (db2, evs1 @ evs2)))"

text \<open>
  What one poll meets at the mail server: the answer to the search, the messages the
  fetch stream delivers for a list of UIDs, and the error the stream ends with, if any.
\<close>

record world =
  search_result :: "error + nat list"
  fetch_stream :: "nat list \<Rightarrow> fetched list"
  fetch_error :: "error option"

text \<open>
  \<open>fetchAndProcess\<close> (lines 148-242). \<open>since\<close> is the module's \<open>sinceDate\<close>. The promise
  always resolves: the result is the store and the events, never an error.
\<close>

definition fetchAndProcess :: "config \<Rightarrow> jsstring \<Rightarrow> world \<Rightarrow> low \<Rightarrow> low \<times> event list" where
  "fetchAndProcess cfg since w db =
     (case search_result w of
        Inl err \<Rightarrow> (db, [SearchReq [UNSEEN, SINCE since], LogSearchError err])
      | Inr results \<Rightarrow>
          if results = [] then (db, [SearchReq [UNSEEN, SINCE since]])
          else
            (let latest10 = take 50 results in
             (case process_stream cfg db (fetch_stream w latest10) of
                (db', evs) \<Rightarrow>
                  (db', SearchReq [UNSEEN, SINCE since] # FetchReq latest10 # evs
                     @ (case fetch_error w of None \<Rightarrow> [] | Some e \<Rightarrow> [LogFetchError e])))))"

text \<open>The requests to Telegram among a run of events.\<close>

definition posts :: "event list \<Rightarrow> event list" where
  "posts evs = filter (\<lambda>e. case e of HttpPost _ _ \<Rightarrow> True | _ \<Rightarrow> False) evs"

section \<open>Notions of the specification\<close>

text \<open>
  The escaping as the specification words it: each \<open>&\<close>, \<open><\<close> and \<open>>\<close> becomes its
  entity, and every other code unit stays.
\<close>

definition escape_char :: "jschar \<Rightarrow> jsstring" where
  "escape_char c =
     (if c = amp then js ''&amp;''
      else if c = lt then js ''&lt;''
      else if c = gt then js ''&gt;''
      else [c])"

definition escape_spec :: "jsstring \<Rightarrow> jsstring" where
  "escape_spec s = concat (map escape_char s)"

text \<open>
  A transport that fails: the network fails or the status is not 2xx; and the error the
  attempt then throws.
\<close>

definition failing :: "response \<Rightarrow> bool" where
  "failing r = (case r of NetworkFailure _ \<Rightarrow> True | HttpResponse st _ _ \<Rightarrow> \<not> res_ok st)"

definition failure_of :: "response \<Rightarrow> error" where
  "failure_of r =
     (case r of
        NetworkFailure m \<Rightarrow> FetchNetworkError m
      | HttpResponse st txt _ \<Rightarrow> TelegramApiError st txt)"

text \<open>The request that carries the text \<open>txt\<close>.\<close>

definition post_of :: "config \<Rightarrow> jsstring \<Rightarrow> event" where
  "post_of cfg txt =
     HttpPost (js ''https://api.telegram.org/bot'' @ TELEGRAM_BOT_TOKEN cfg @ js ''/sendMessage'')
       \<lparr>chat_id = TELEGRAM_CHAT_ID cfg, msg_text = txt, parse_mode = js ''HTML'',
        disable_web_page_preview = True\<rparr>"

text \<open>The UID lists a run of events asks the mail server to fetch.\<close>

definition fetch_requests :: "event list \<Rightarrow> nat list list" where
  "fetch_requests evs = concat (map (\<lambda>e. case e of FetchReq ids \<Rightarrow> [ids] | _ \<Rightarrow> []) evs)"

text \<open>The identifiers a run of events logs as sent.\<close>

definition sent_uids :: "event list \<Rightarrow> uid list" where
  "sent_uids evs = concat (map (\<lambda>e. case e of LogSent u _ \<Rightarrow> [u] | _ \<Rightarrow> []) evs)"

text \<open>
  The mail client's part in a fetch of the UIDs \<open>ids\<close>: the stream delivers one message
  for each requested UID, with that UID in its attributes, in any order.
\<close>

definition delivers_requested :: "world \<Rightarrow> nat list \<Rightarrow> bool" where
  "delivers_requested w ids = (mset (map attrs_uid (fetch_stream w ids)) = mset (map Some ids))"

text \<open>
  A message whose notification goes through at once: the mail parses, the first request
  gets a 2xx answer with a JSON body, and the store file can be written.
\<close>

definition deliverable :: "fetched \<Rightarrow> bool" where
  "deliverable m =
     ((case parse_result m of Inl _ \<Rightarrow> False | Inr _ \<Rightarrow> True)
      \<and> (case transport m 1 of
           NetworkFailure _ \<Rightarrow> False
         | HttpResponse st _ is_json \<Rightarrow> res_ok st \<and> is_json)
      \<and> write_ok m)"

section \<open>Example inputs\<close>

definition example_config :: config where
  "example_config =
     \<lparr>TELEGRAM_BOT_TOKEN = js ''123:abc'', TELEGRAM_CHAT_ID = js ''42'', MAX_BODY_CHARS = 1500\<rparr>"

definition example_parsed :: parsed where
  "example_parsed =
     \<lparr>from_text = Some (js ''Ann <ann@example.org>''), subject = Some (js ''Hello''),
      date_utc = None, text_body = Some (js ''See you & bye''), html_body = None,
      attachments = []\<rparr>"

text \<open>A message with the UID \<open>n\<close> whose notification Telegram accepts at once.\<close>

definition example_message :: "nat \<Rightarrow> fetched" where
  "example_message n =
     \<lparr>attrs_uid = Some n, parse_result = Inr example_parsed, fallback_suffix = js ''0-0.5'',
      transport = (\<lambda>_. HttpResponse 200 (js ''{}'') True), write_ok = True\<rparr>"

text \<open>A message with the UID 7 whose every request Telegram answers with status 500.\<close>

definition example_failing_message :: fetched where
  "example_failing_message =
     \<lparr>attrs_uid = Some 7, parse_result = Inr example_parsed, fallback_suffix = js ''0-0.5'',
      transport = (\<lambda>_. HttpResponse 500 (js ''Internal Server Error'') False), write_ok = True\<rparr>"

text \<open>A mail with one attachment whose file name holds a \<open><\<close>.\<close>

definition example_attachment :: attachment where
  "example_attachment =
     \<lparr>filename = Some (js ''a<b.txt''), contentType = js ''text/plain'', size_bytes = 3\<rparr>"

definition example_mail_with_attachment :: parsed where
  "example_mail_with_attachment = example_parsed\<lparr>attachments := [example_attachment]\<rparr>"

text \<open>A mailbox where every search finds the unseen message 7.\<close>

definition example_world :: world where
  "example_world =
     \<lparr>search_result = Inr [7], fetch_stream = map example_message, fetch_error = None\<rparr>"

text \<open>A mailbox where the search finds sixty unseen messages, the UIDs 1 to 60.\<close>

definition example_world_60 :: world where
  "example_world_60 =
     \<lparr>search_result = Inr [1..<61], fetch_stream = map example_message, fetch_error = None\<rparr>"

text \<open>A mail server whose search fails.\<close>

definition example_world_search_fails :: world where
  "example_world_search_fails =
     \<lparr>search_result = Inl (ImapError (js ''timeout'')), fetch_stream = map example_message,
      fetch_error = None\<rparr>"

text \<open>The process loads the module on 1 January 2024 and polls on 1 March 2024.\<close>

definition example_load_date :: local_date where
  "example_load_date = \<lparr>getFullYear = 2024, getMonth = 0, getDate = 1\<rparr>"

definition example_poll_date :: local_date where
  "example_poll_date = \<lparr>getFullYear = 2024, getMonth = 2, getDate = 1\<rparr>"

text \<open>The store after a start with no file at \<open>DB_FILE\<close>.\<close>

definition store_without_uids :: low where
  "store_without_uids =
     \<lparr>data = Some \<lparr>lastEmailUid = Some None, processedUids = None\<rparr>,
      on_disk = Content \<lparr>lastEmailUid = Some None, processedUids = None\<rparr>\<rparr>"

text \<open>A store that holds the empty sequence, in memory and in its file.\<close>

definition store_empty_uids :: low where
  "store_empty_uids =
     \<lparr>data = Some \<lparr>lastEmailUid = None, processedUids = Some []\<rparr>,
      on_disk = Content \<lparr>lastEmailUid = None, processedUids = Some []\<rparr>\<rparr>"

section \<open>Facts about the store\<close>

lemma seen_markProcessed:
  "seen (fst (markProcessed ok db u)) =
     (case seen db of
        None \<Rightarrow> None
      | Some xs \<Rightarrow> Some (if length xs \<ge> 2000 then slice_last 2000 (xs @ [u]) else xs @ [u]))"
  by (auto simp: markProcessed_def seen_def Low_write_def Let_def
           split: option.splits if_splits)

lemma slice_last_all: "length xs \<le> k \<Longrightarrow> slice_last k xs = xs"
  by (simp add: slice_last_def)

lemma length_slice_last: "length (slice_last k xs) = min k (length xs)"
  by (simp add: slice_last_def)

lemma slice_last_append:
  "slice_last k (slice_last k xs @ ys) = slice_last k (xs @ ys)"
proof (cases "length xs \<le> k")
  case True
  then show ?thesis by (simp add: slice_last_def)
next
  case False
  then have "length xs + length ys - k = length ys + (length xs - k)"
    by simp
  moreover have "length xs - (length xs - k) = k"
    using False by simp
  ultimately show ?thesis
    by (simp add: slice_last_def)
qed

lemma seen_markProcessed_present:
  "seen db = Some xs \<Longrightarrow> length xs \<le> 2000 \<Longrightarrow>
   seen (fst (markProcessed ok db u)) = Some (slice_last 2000 (xs @ [u]))"
  by (auto simp: seen_markProcessed slice_last_all)

lemma seen_markProcessed_all_present:
  "seen db = Some xs \<Longrightarrow> length xs \<le> 2000 \<Longrightarrow>
   seen (markProcessed_all db calls) = Some (slice_last 2000 (xs @ map fst calls))"
proof (induction calls arbitrary: db xs)
  case Nil
  then show ?case by (simp add: markProcessed_all_def slice_last_all)
next
  case (Cons c calls)
  obtain u ok where c: "c = (u, ok)" by (cases c)
  let ?db = "fst (markProcessed ok db u)"
  have step: "seen ?db = Some (slice_last 2000 (xs @ [u]))"
    using Cons.prems by (rule seen_markProcessed_present)
  have len: "length (slice_last 2000 (xs @ [u])) \<le> 2000"
    by (simp add: length_slice_last)
  have "seen (markProcessed_all ?db calls)
          = Some (slice_last 2000 (slice_last 2000 (xs @ [u]) @ map fst calls))"
    using Cons.IH [OF step len] .
  then show ?case
    by (simp add: markProcessed_all_def c slice_last_append)
qed

lemma seen_markProcessed_all_absent:
  "seen db = None \<Longrightarrow> seen (markProcessed_all db calls) = None"
proof (induction calls arbitrary: db)
  case Nil
  then show ?case by (simp add: markProcessed_all_def)
next
  case (Cons c calls)
  obtain u ok where c: "c = (u, ok)" by (cases c)
  have "seen (fst (markProcessed ok db u)) = None"
    using Cons.prems by (simp add: seen_markProcessed)
  then have "seen (markProcessed_all (fst (markProcessed ok db u)) calls) = None"
    by (rule Cons.IH)
  then show ?case by (simp add: markProcessed_all_def c)
qed

lemma hasProcessed_seen:
  "hasProcessed db u = (case seen db of None \<Rightarrow> None | Some xs \<Rightarrow> Some (u \<in> set xs))"
  by (simp add: hasProcessed_def seen_def split: option.splits)

lemma hasProcessed_markProcessed:
  "seen db = Some xs \<Longrightarrow> hasProcessed (fst (markProcessed ok db u)) u = Some True"
  by (simp add: hasProcessed_seen seen_markProcessed slice_last_def)

lemma markProcessed_absent:
  "seen db = None \<Longrightarrow> data db = Some d \<Longrightarrow> on_disk db = Content d \<Longrightarrow>
   markProcessed ok db u = (db, if ok then None else Some PersistenceError)"
  by (auto simp: markProcessed_def seen_def Low_write_def Let_def split: option.splits)

lemma init_missing: "init_store Missing True = Inr store_without_uids"
  by (simp add: init_store_def Low_new_def Low_read_def adapter_read_def Low_write_def
        or_assign_data_def store_without_uids_def)

text \<open>
  The start on a store file that is a JSON object keeps the object as it is, with or
  without the \<open>processedUids\<close> key; a file that does not parse stops the start. Line 41
  gives the empty sequence to a store whose \<open>data\<close> is \<open>null\<close> and leaves every other
  store as it is; after line 39 and \<open>read\<close>, \<open>data\<close> is never \<open>null\<close>.
\<close>

lemma init_store_content:
  "init_store (Content d) True = Inr \<lparr>data = Some d, on_disk = Content d\<rparr>"
  by (simp add: init_store_def Low_new_def Low_read_def adapter_read_def Low_write_def
        or_assign_data_def)

lemma or_assign_data_null: "data db = None \<Longrightarrow> seen (or_assign_data db) = Some []"
  by (simp add: or_assign_data_def seen_def)

lemma or_assign_data_object: "data db = Some d \<Longrightarrow> or_assign_data db = db"
  by (simp add: or_assign_data_def)

lemma init_store_corrupt: "init_store Corrupt ok = Inl LoadError"
  by (simp add: init_store_def Low_new_def Low_read_def adapter_read_def)

section \<open>Facts about the sender and the handler\<close>

lemma attempt_failing:
  "failing r \<Longrightarrow>
   attempt url body r = ([HttpPost url body], Inl (failure_of r))"
  by (cases r) (simp_all add: attempt_def failing_def failure_of_def)

lemma send_all_fail:
  assumes "\<And>k. failing (tr k)"
  shows "sendTelegramMessage cfg tr txt =
           ([post_of cfg txt, Sleep 1000, post_of cfg txt, Sleep 2000,
             post_of cfg txt, Sleep 4000, post_of cfg txt],
            Inl (failure_of (tr 4)))"
proof -
  have three: "(3::nat) = Suc (Suc (Suc 0))" by simp
  have four: "Suc (Suc (Suc (Suc 0))) = 4" by simp
  show ?thesis
    unfolding sendTelegramMessage_def pRetry_def Let_def post_of_def
    by (simp add: three attempt_failing [OF assms] four)
qed

lemma send_first_ok:
  assumes "tr 1 = HttpResponse st body True" and "res_ok st"
  shows "sendTelegramMessage cfg tr txt = ([post_of cfg txt], Inr body)"
proof -
  have three: "(3::nat) = Suc (Suc (Suc 0))" by simp
  have "attempt url b (tr 1) = ([HttpPost url b], Inr body)" for url b
    using assms by (simp add: attempt_def)
  then show ?thesis
    unfolding sendTelegramMessage_def pRetry_def Let_def post_of_def
    by (simp add: three)
qed

lemma on_body_seen:
  "parse_result m = Inr p \<Longrightarrow> hasProcessed db (message_uid m) = Some True \<Longrightarrow>
   on_body cfg db m = (db, [])"
  by (simp add: on_body_def truthy_def)

lemma on_body_send_failed:
  assumes "parse_result m = Inr p" and "hasProcessed db (message_uid m) \<noteq> Some True"
    and "\<And>k. failing (transport m k)"
  shows "on_body cfg db m =
           (db, [Sleep 5000, post_of cfg (message cfg p), Sleep 1000, post_of cfg (message cfg p),
                 Sleep 2000, post_of cfg (message cfg p), Sleep 4000, post_of cfg (message cfg p),
                 LogSendFailed (failure_of (transport m 4))])"
  using assms(1,2) by (simp add: on_body_def truthy_def send_all_fail [of "transport m", OF assms(3)])

lemma on_body_sent:
  assumes "parse_result m = Inr p" and "hasProcessed db (message_uid m) \<noteq> Some True"
    and "transport m 1 = HttpResponse st body True" and "res_ok st"
  shows "on_body cfg db m =
           (fst (markProcessed (write_ok m) db (message_uid m)),
            [Sleep 5000, post_of cfg (message cfg p),
             (case snd (markProcessed (write_ok m) db (message_uid m)) of
                Some e \<Rightarrow> LogSendFailed e
              | None \<Rightarrow> LogSent (message_uid m) (or_else (subject p) (js ''(no subject)'')))])"
  using assms(1,2)
  by (simp add: on_body_def truthy_def send_first_ok [of "transport m", OF assms(3,4)] split: prod.splits option.splits)

text \<open>
  On a store that has the \<open>processedUids\<close> key, a message whose notification was sent is
  recorded, and offering it again after its handler has finished sends nothing and
  changes nothing. (A second handler that starts while the first still waits checks the
  store before the first one records, and is not covered by this.)
\<close>

lemma on_body_twice_present:
  assumes "seen db = Some xs" and "parse_result m = Inr p"
    and "transport m 1 = HttpResponse st body True" and "res_ok st"
  shows "on_body cfg (fst (on_body cfg db m)) m = (fst (on_body cfg db m), [])"
proof (cases "hasProcessed db (message_uid m) = Some True")
  case True
  then show ?thesis using assms(2) by (simp add: on_body_seen)
next
  case False
  have "fst (on_body cfg db m) = fst (markProcessed (write_ok m) db (message_uid m))"
    using on_body_sent [OF assms(2) False assms(3,4)] by simp
  moreover have "hasProcessed (fst (markProcessed (write_ok m) db (message_uid m))) (message_uid m)
                   = Some True"
    using assms(1) by (rule hasProcessed_markProcessed)
  ultimately show ?thesis using assms(2) by (simp add: on_body_seen)
qed

lemma sent_is_seen_when_uids_present:
  assumes "seen db = Some xs" and "parse_result m = Inr p"
    and "transport m 1 = HttpResponse st body True" and "res_ok st"
  shows "hasProcessed (fst (on_body cfg db m)) (message_uid m) = Some True"
proof (cases "hasProcessed db (message_uid m) = Some True")
  case True
  then show ?thesis using assms(2) by (simp add: on_body_seen)
next
  case False
  have "fst (on_body cfg db m) = fst (markProcessed (write_ok m) db (message_uid m))"
    using on_body_sent [OF assms(2) False assms(3,4)] by simp
  then show ?thesis
    using assms(1) by (simp add: hasProcessed_markProcessed)
qed

lemma process_stream_Cons:
  "process_stream cfg db (m # ms) =
     (fst (process_stream cfg (fst (on_body cfg db m)) ms),
      snd (on_body cfg db m) @ snd (process_stream cfg (fst (on_body cfg db m)) ms))"
  by (simp split: prod.splits)

lemma posts_simps:
  "posts [] = []"
  "posts (post_of cfg txt # evs) = post_of cfg txt # posts evs"
  "posts (Sleep d # evs) = posts evs"
  "posts (SearchReq c # evs) = posts evs"
  "posts (FetchReq ids # evs) = posts evs"
  "posts (LogSent u sj # evs) = posts evs"
  "posts (LogSendFailed e # evs) = posts evs"
  "posts (LogParserError e # evs) = posts evs"
  "posts (LogSearchError e # evs) = posts evs"
  "posts (LogFetchError e # evs) = posts evs"
  by (simp_all add: posts_def post_of_def)

lemma on_body_example_without_uids:
  "0 < n \<Longrightarrow>
   on_body cfg store_without_uids (example_message n) =
     (store_without_uids,
      [Sleep 5000, post_of cfg (message cfg example_parsed), LogSent (UidNum n) (js ''Hello'')])"
proof -
  assume n: "0 < n"
  have u: "message_uid (example_message n) = UidNum n"
    using n by (simp add: message_uid_def example_message_def)
  have s: "seen store_without_uids = None"
    by (simp add: seen_def store_without_uids_def)
  have h: "hasProcessed store_without_uids (message_uid (example_message n)) \<noteq> Some True"
    by (simp add: hasProcessed_seen s)
  have m: "markProcessed True store_without_uids (UidNum n) = (store_without_uids, None)"
    using markProcessed_absent [OF s, of _ True "UidNum n"]
    by (simp add: store_without_uids_def)
  have "on_body cfg store_without_uids (example_message n) =
          (fst (markProcessed (write_ok (example_message n)) store_without_uids
                  (message_uid (example_message n))),
           [Sleep 5000, post_of cfg (message cfg example_parsed),
            (case snd (markProcessed (write_ok (example_message n)) store_without_uids
                         (message_uid (example_message n))) of
               Some e \<Rightarrow> LogSendFailed e
             | None \<Rightarrow> LogSent (message_uid (example_message n))
                         (or_else (subject example_parsed) (js ''(no subject)'')))])"
    by (rule on_body_sent [OF _ h, of example_parsed 200 "js ''{}''"])
       (simp_all add: example_message_def res_ok_def)
  moreover have "write_ok (example_message n) = True"
    by (simp add: example_message_def)
  moreover have "or_else (subject example_parsed) (js ''(no subject)'') = js ''Hello''"
    by (simp add: or_else_def example_parsed_def js_def)
  ultimately show ?thesis
    by (simp add: u m)
qed

lemma poll_example_without_uids:
  "fetchAndProcess cfg since example_world store_without_uids =
     (store_without_uids,
      [SearchReq [UNSEEN, SINCE since], FetchReq [7], Sleep 5000,
       post_of cfg (message cfg example_parsed), LogSent (UidNum 7) (js ''Hello'')])"
  by (simp add: fetchAndProcess_def example_world_def on_body_example_without_uids)

section \<open>Facts about escaping, trimming and joining\<close>

lemma replace_all_Nil: "replace_all c rep [] = []"
  by (simp add: replace_all_def)

lemma replace_all_Cons:
  "replace_all c rep (x # xs) = (if x = c then rep else [x]) @ replace_all c rep xs"
  by (simp add: replace_all_def)

lemma replace_all_append:
  "replace_all c rep (xs @ ys) = replace_all c rep xs @ replace_all c rep ys"
  by (simp add: replace_all_def)

lemma entity_amp: "replace_all gt r (replace_all lt r' (js ''&amp;'')) = js ''&amp;''"
  by (simp add: replace_all_def js_def lt_def gt_def)

lemma entity_lt: "replace_all gt r (js ''&lt;'') = js ''&lt;''"
  by (simp add: replace_all_def js_def gt_def)

lemma escapeHtml_Nil: "escapeHtml [] = []"
  by (simp add: escapeHtml_def replace_all_Nil)

lemma escapeHtml_Cons: "escapeHtml (c # s) = escape_char c @ escapeHtml s"
proof -
  have ne: "amp \<noteq> lt" "amp \<noteq> gt" "lt \<noteq> gt"
    by (simp_all add: amp_def lt_def gt_def)
  consider "c = amp" | "c = lt" | "c = gt" | "c \<noteq> amp" "c \<noteq> lt" "c \<noteq> gt"
    by blast
  then show ?thesis
  proof cases
    case 1
    then show ?thesis
      using ne by (simp add: escapeHtml_def escape_char_def replace_all_Cons replace_all_append entity_amp)
  next
    case 2
    then show ?thesis
      using ne by (simp add: escapeHtml_def escape_char_def replace_all_Cons replace_all_append entity_lt)
  next
    case 3
    then show ?thesis
      using ne by (simp add: escapeHtml_def escape_char_def replace_all_Cons replace_all_append)
  next
    case 4
    then show ?thesis
      by (simp add: escapeHtml_def escape_char_def replace_all_Cons)
  qed
qed

lemma escapeHtml_spec: "escapeHtml s = escape_spec s"
  by (induction s) (simp_all add: escapeHtml_Nil escapeHtml_Cons escape_spec_def)

lemma escape_char_no_markup: "lt \<notin> set (escape_char c) \<and> gt \<notin> set (escape_char c)"
  by (simp add: escape_char_def js_def lt_def gt_def amp_def)

lemma escape_spec_no_markup: "lt \<notin> set (escape_spec s) \<and> gt \<notin> set (escape_spec s)"
  using escape_char_no_markup by (induction s) (auto simp: escape_spec_def)

lemma shorten_long:
  assumes "1 \<le> n" and "n < int (length s)"
  shows "shorten s n = take (nat (n - 1)) s @ [ellipsis]"
proof -
  have "s \<noteq> []" using assms by auto
  moreover have "slice0 s (n - 1) = take (nat (n - 1)) s"
    using assms by (simp add: slice0_def Let_def min_def)
  ultimately show ?thesis
    using assms by (simp add: shorten_def)
qed

lemma shorten_short: "int (length s) \<le> n \<Longrightarrow> shorten s n = s"
  by (simp add: shorten_def)

lemma join_contains:
  "a \<in> set xs \<Longrightarrow> \<exists>pre post. join sep (map f xs) = pre @ f a @ post"
proof (induction sep "map f xs" arbitrary: xs rule: join.induct)
  case (1 sep)
  then show ?case by simp
next
  case (2 sep x)
  then obtain b where "xs = [b]" by auto
  with 2 have "join sep (map f xs) = [] @ f a @ []" by auto
  then show ?case by blast
next
  case (3 sep x y ys)
  then obtain b bs where xs: "xs = b # bs" and x: "x = f b" and bs: "y # ys = map f bs"
    by (cases xs) auto
  show ?case
  proof (cases "a = b")
    case True
    have "join sep (map f xs) = [] @ f a @ (sep @ join sep (map f bs))"
      using xs bs [symmetric] True by simp
    then show ?thesis by blast
  next
    case False
    then have "a \<in> set bs" using 3 xs by simp
    from 3(1) [OF bs this] obtain pre post where "join sep (map f bs) = pre @ f a @ post"
      by blast
    then have "join sep (map f xs) = (f b @ sep @ pre) @ f a @ post"
      using xs bs [symmetric] by simp
    then show ?thesis by blast
  qed
qed

lemma attachmentsSummary_contains:
  assumes "a \<in> set atts"
  shows "\<exists>pre post. attachmentsSummary atts = pre @ attachment_line a @ post"
proof -
  from join_contains [OF assms, of "[nl]" attachment_line]
  obtain pre post where j: "join [nl] (map attachment_line atts) = pre @ attachment_line a @ post"
    by blast
  have "atts \<noteq> []" using assms by auto
  then have "attachmentsSummary atts =
               ([nl] @ js ''Attachments ('' @ show_nat (length atts) @ js ''):'' @ [nl] @ pre)
                 @ attachment_line a @ post"
    by (simp add: attachmentsSummary_def j)
  then show ?thesis by blast
qed

lemma message_contains_attachment_line:
  assumes "a \<in> set (attachments p)"
  shows "\<exists>pre post. message cfg p = pre @ attachment_line a @ post"
proof -
  from attachmentsSummary_contains [OF assms]
  obtain pre post where "attachmentsSummary (attachments p) = pre @ attachment_line a @ post"
    by blast
  then have "message cfg p =
      (js ''<b>New Email</b>'' @ [nl]
       @ js ''<b>From:</b> '' @ escapeHtml (or_else (from_text p) (js ''Unknown'')) @ [nl]
       @ js ''<b>Subject:</b> '' @ escapeHtml (or_else (subject p) (js ''(no subject)'')) @ [nl]
       @ js ''<b>Date:</b> '' @ escapeHtml (case date_utc p of None \<Rightarrow> [] | Some d \<Rightarrow> d)
       @ [nl, nl] @ bodyText cfg p @ pre) @ attachment_line a @ post"
    by (simp add: message_def)
  then show ?thesis by blast
qed

lemma show_nat_digit: "n < 10 \<Longrightarrow> show_nat n = [digit n]"
  by (simp add: show_nat.simps)

lemma example_summary:
  "attachmentsSummary (attachments example_mail_with_attachment) =
     [nl] @ js ''Attachments (1):'' @ [nl] @ [bullet] @ js '' a<b.txt (text/plain, 3 bytes)''"
  by (simp add: attachmentsSummary_def example_mail_with_attachment_def example_attachment_def
        attachment_line_def or_else_def show_nat_digit digit_def js_def)

section \<open>Facts about the fetch requests of a poll\<close>

lemma fetch_requests_append:
  "fetch_requests (xs @ ys) = fetch_requests xs @ fetch_requests ys"
  by (simp add: fetch_requests_def)

lemma fetch_requests_simps:
  "fetch_requests [] = []"
  "fetch_requests (FetchReq ids # evs) = ids # fetch_requests evs"
  "fetch_requests (SearchReq c # evs) = fetch_requests evs"
  "fetch_requests (HttpPost url b # evs) = fetch_requests evs"
  "fetch_requests (Sleep d # evs) = fetch_requests evs"
  "fetch_requests (LogSent u sj # evs) = fetch_requests evs"
  "fetch_requests (LogSendFailed e # evs) = fetch_requests evs"
  "fetch_requests (LogParserError e # evs) = fetch_requests evs"
  "fetch_requests (LogSearchError e # evs) = fetch_requests evs"
  "fetch_requests (LogFetchError e # evs) = fetch_requests evs"
  by (simp_all add: fetch_requests_def)

lemma fetch_requests_pRetry_from:
  assumes "\<And>k. fetch_requests (fst (run k)) = []"
  shows "fetch_requests (fst (pRetry_from opts run k n)) = []"
proof (induction n arbitrary: k)
  case 0
  then show ?case by (simp add: assms)
next
  case (Suc n)
  have a: "fetch_requests (fst (run k)) = []" by (rule assms)
  have b: "fetch_requests (fst (pRetry_from opts run (Suc k) n)) = []" by (rule Suc.IH)
  show ?case
    using a b
    by (auto simp: fetch_requests_append fetch_requests_simps split: prod.splits sum.splits)
qed

lemma fetch_requests_send: "fetch_requests (fst (sendTelegramMessage cfg tr t)) = []"
  unfolding sendTelegramMessage_def pRetry_def Let_def
  by (rule fetch_requests_pRetry_from) (simp add: attempt_def fetch_requests_simps)

lemma fetch_requests_on_body: "fetch_requests (snd (on_body cfg db m)) = []"
proof -
  have "fetch_requests evs = []"
    if "sendTelegramMessage cfg (transport m) t = (evs, r)" for evs r t
    using fetch_requests_send [of cfg "transport m" t] that by simp
  then show ?thesis
    by (auto simp: on_body_def fetch_requests_append fetch_requests_simps
          split: sum.splits prod.splits option.splits)
qed

lemma fetch_requests_process_stream: "fetch_requests (snd (process_stream cfg db ms)) = []"
proof (induction ms arbitrary: db)
  case Nil
  then show ?case by (simp add: fetch_requests_simps)
next
  case (Cons m ms)
  have "snd (process_stream cfg db (m # ms)) =
          snd (on_body cfg db m) @ snd (process_stream cfg (fst (on_body cfg db m)) ms)"
    by (simp split: prod.splits)
  then show ?case
    using fetch_requests_on_body [of cfg db m] Cons.IH [of "fst (on_body cfg db m)"]
    by (simp add: fetch_requests_append)
qed

section \<open>Facts about the handlers of a stream\<close>

lemma sent_uids_append: "sent_uids (xs @ ys) = sent_uids xs @ sent_uids ys"
  by (simp add: sent_uids_def)

lemma sent_uids_simps:
  "sent_uids [] = []"
  "sent_uids (LogSent u sj # evs) = u # sent_uids evs"
  "sent_uids (FetchReq ids # evs) = sent_uids evs"
  "sent_uids (SearchReq c # evs) = sent_uids evs"
  "sent_uids (HttpPost url b # evs) = sent_uids evs"
  "sent_uids (Sleep d # evs) = sent_uids evs"
  "sent_uids (LogSendFailed e # evs) = sent_uids evs"
  "sent_uids (LogParserError e # evs) = sent_uids evs"
  "sent_uids (LogSearchError e # evs) = sent_uids evs"
  "sent_uids (LogFetchError e # evs) = sent_uids evs"
  by (simp_all add: sent_uids_def)

lemma posts_append: "posts (xs @ ys) = posts xs @ posts ys"
  by (simp add: posts_def)

lemma posts_HttpPost: "posts (HttpPost url b # evs) = HttpPost url b # posts evs"
  by (simp add: posts_def)

lemma pRetry_from_bounds:
  assumes "\<And>k. length (posts (fst (run k))) \<le> 1 \<and> sent_uids (fst (run k)) = []"
  shows "length (posts (fst (pRetry_from opts run k n))) \<le> Suc n
         \<and> sent_uids (fst (pRetry_from opts run k n)) = []"
proof (induction n arbitrary: k)
  case 0
  then show ?case using assms [of k] by simp
next
  case (Suc n)
  show ?case
    using assms [of k] Suc.IH [of "Suc k"]
    by (auto simp: posts_append posts_simps sent_uids_append sent_uids_simps
          split: prod.splits sum.splits)
qed

lemma send_bounds:
  "length (posts (fst (sendTelegramMessage cfg tr t))) \<le> 4
   \<and> sent_uids (fst (sendTelegramMessage cfg tr t)) = []"
proof -
  have "length (posts (fst (pRetry_from opts (\<lambda>k. attempt url b (tr k)) 1 3))) \<le> Suc 3
        \<and> sent_uids (fst (pRetry_from opts (\<lambda>k. attempt url b (tr k)) 1 3)) = []" for opts url b
    by (rule pRetry_from_bounds) (simp add: attempt_def posts_HttpPost posts_simps sent_uids_simps)
  then show ?thesis
    by (simp add: sendTelegramMessage_def pRetry_def Let_def)
qed

lemma on_body_bounds:
  "length (posts (snd (on_body cfg db m))) \<le> 4 \<and> length (sent_uids (snd (on_body cfg db m))) \<le> 1"
proof -
  have "length (posts evs) \<le> 4 \<and> sent_uids evs = []"
    if "sendTelegramMessage cfg (transport m) t = (evs, r)" for evs r t
    using send_bounds [of cfg "transport m" t] that by simp
  then show ?thesis
    by (auto simp: on_body_def posts_append posts_simps sent_uids_append sent_uids_simps
          split: sum.splits prod.splits option.splits)
qed

lemma snd_process_stream_Cons:
  "snd (process_stream cfg db (m # ms)) =
     snd (on_body cfg db m) @ snd (process_stream cfg (fst (on_body cfg db m)) ms)"
  by (simp split: prod.splits)

lemma process_stream_bounds:
  "length (posts (snd (process_stream cfg db ms))) \<le> 4 * length ms
   \<and> length (sent_uids (snd (process_stream cfg db ms))) \<le> length ms"
proof (induction ms arbitrary: db)
  case Nil
  then show ?case by (simp add: posts_simps sent_uids_simps)
next
  case (Cons m ms)
  show ?case
    using on_body_bounds [of cfg db m] Cons.IH [of "fst (on_body cfg db m)"]
    by (simp add: snd_process_stream_Cons posts_append sent_uids_append
          del: process_stream.simps)
qed

lemma process_stream_fold:
  "fold (\<lambda>m (d, evs). (fst (on_body cfg d m), evs @ snd (on_body cfg d m))) ms (db, acc) =
     (fst (process_stream cfg db ms), acc @ snd (process_stream cfg db ms))"
proof (induction ms arbitrary: db acc)
  case Nil
  then show ?case by simp
next
  case (Cons m ms)
  show ?case
    by (simp add: Cons.IH split: prod.splits)
qed

lemma markProcessed_written: "snd (markProcessed True db u) = None"
  by (simp add: markProcessed_def Low_write_def Let_def split: option.splits)

lemma set_slice_last: "set (slice_last k xs) \<subseteq> set xs"
  by (simp add: slice_last_def set_drop_subset)

lemma hasProcessed_markProcessed_other:
  assumes "u' \<noteq> u" and "hasProcessed db u' \<noteq> Some True"
  shows "hasProcessed (fst (markProcessed ok db u)) u' \<noteq> Some True"
proof (cases "seen db")
  case None
  then show ?thesis by (simp add: hasProcessed_seen seen_markProcessed)
next
  case (Some xs)
  then have "u' \<notin> set xs" using assms(2) by (simp add: hasProcessed_seen)
  then have "u' \<notin> set (xs @ [u])" using assms(1) by simp
  then have "u' \<notin> set (slice_last 2000 (xs @ [u]))"
    using set_slice_last [of 2000 "xs @ [u]"] by blast
  then show ?thesis
    using Some \<open>u' \<notin> set (xs @ [u])\<close>
    by (simp add: hasProcessed_seen seen_markProcessed)
qed

lemma on_body_deliverable:
  assumes "deliverable m" and "hasProcessed db (message_uid m) \<noteq> Some True"
  shows "fst (on_body cfg db m) = fst (markProcessed True db (message_uid m))
       \<and> length (posts (snd (on_body cfg db m))) = 1
       \<and> sent_uids (snd (on_body cfg db m)) = [message_uid m]"
proof -
  from assms(1) obtain p st body where p: "parse_result m = Inr p"
    and t: "transport m 1 = HttpResponse st body True" and ok: "res_ok st" and w: "write_ok m"
    by (auto simp: deliverable_def split: sum.splits response.splits)
  show ?thesis
    using on_body_sent [OF p assms(2) t ok, of cfg] w
    by (simp add: markProcessed_written posts_simps posts_HttpPost sent_uids_simps post_of_def)
qed

lemma process_stream_deliverable:
  assumes "\<forall>m \<in> set ms. deliverable m \<and> hasProcessed db (message_uid m) \<noteq> Some True"
    and "distinct (map message_uid ms)"
  shows "sent_uids (snd (process_stream cfg db ms)) = map message_uid ms
       \<and> length (posts (snd (process_stream cfg db ms))) = length ms"
  using assms
proof (induction ms arbitrary: db)
  case Nil
  then show ?case by (simp add: posts_simps sent_uids_simps)
next
  case (Cons m ms)
  have m: "deliverable m" "hasProcessed db (message_uid m) \<noteq> Some True"
    using Cons.prems(1) by simp_all
  note step = on_body_deliverable [OF m, of cfg]
  have "\<forall>m' \<in> set ms. deliverable m'
          \<and> hasProcessed (fst (on_body cfg db m)) (message_uid m') \<noteq> Some True"
  proof
    fix m' assume in_ms: "m' \<in> set ms"
    have "message_uid m \<notin> set (map message_uid ms)"
      using Cons.prems(2) by simp
    then have ne: "message_uid m' \<noteq> message_uid m"
      using in_ms by (metis image_eqI set_map)
    have "hasProcessed db (message_uid m') \<noteq> Some True" "deliverable m'"
      using Cons.prems(1) in_ms by simp_all
    then show "deliverable m'
          \<and> hasProcessed (fst (on_body cfg db m)) (message_uid m') \<noteq> Some True"
      using step hasProcessed_markProcessed_other [OF ne, of db True] by simp
  qed
  moreover have "distinct (map message_uid ms)"
    using Cons.prems(2) by simp
  ultimately have "sent_uids (snd (process_stream cfg (fst (on_body cfg db m)) ms)) = map message_uid ms
       \<and> length (posts (snd (process_stream cfg (fst (on_body cfg db m)) ms))) = length ms"
    by (rule Cons.IH)
  then show ?case
    using step
    by (simp add: snd_process_stream_Cons posts_append sent_uids_append
          del: process_stream.simps)
qed

text \<open>What the mail client's part in a fetch gives.\<close>

lemma delivers_length:
  "delivers_requested w ids \<Longrightarrow> length (fetch_stream w ids) = length ids"
  using mset_eq_length [of "map attrs_uid (fetch_stream w ids)" "map Some ids"]
  by (simp add: delivers_requested_def)

lemma delivers_attrs:
  assumes "delivers_requested w ids" and "m \<in> set (fetch_stream w ids)"
  shows "\<exists>n \<in> set ids. attrs_uid m = Some n"
proof -
  have eq: "set (map attrs_uid (fetch_stream w ids)) = set (map Some ids)"
    using assms(1) unfolding delivers_requested_def by (rule mset_eq_setD)
  have "attrs_uid m \<in> set (map attrs_uid (fetch_stream w ids))"
    using assms(2) by simp
  then have "attrs_uid m \<in> set (map Some ids)"
    by (simp only: eq)
  then show ?thesis
    by (auto simp: image_iff)
qed

lemma delivers_uids:
  assumes "delivers_requested w ids" and "0 \<notin> set ids"
  shows "mset (map message_uid (fetch_stream w ids)) = mset (map UidNum ids)"
proof -
  let ?h = "\<lambda>a. case a of None \<Rightarrow> UidStr [] | Some n \<Rightarrow> UidNum n"
  have "message_uid m = ?h (attrs_uid m)" if "m \<in> set (fetch_stream w ids)" for m
  proof -
    from delivers_attrs [OF assms(1) that] obtain n where "n \<in> set ids" "attrs_uid m = Some n"
      by blast
    moreover from this have "n \<noteq> 0" using assms(2) by metis
    ultimately show ?thesis by (simp add: message_uid_def)
  qed
  then have eq: "map message_uid (fetch_stream w ids) = map ?h (map attrs_uid (fetch_stream w ids))"
    by simp
  have c: "mset (map attrs_uid (fetch_stream w ids)) = mset (map Some ids)"
    using assms(1) by (simp add: delivers_requested_def)
  have "mset (map message_uid (fetch_stream w ids))
          = mset (map ?h (map attrs_uid (fetch_stream w ids)))"
    by (simp only: eq)
  also have "\<dots> = image_mset ?h (mset (map attrs_uid (fetch_stream w ids)))"
    by (rule mset_map)
  also have "\<dots> = image_mset ?h (mset (map Some ids))"
    by (simp only: c)
  also have "\<dots> = mset (map ?h (map Some ids))"
    by (rule mset_map [symmetric])
  also have "map ?h (map Some ids) = map UidNum ids"
    by simp
  finally show ?thesis .
qed

lemma delivers_distinct:
  assumes "delivers_requested w ids" and "0 \<notin> set ids" and "distinct ids"
  shows "distinct (map message_uid (fetch_stream w ids))"
proof -
  have "distinct (map UidNum ids)"
    using assms(3) by (simp add: distinct_map inj_on_def)
  then show ?thesis
    using delivers_uids [OF assms(1,2)] by (metis mset_eq_imp_distinct_iff)
qed

section \<open>The dates of the example\<close>

text \<open>The two dates of the example, thirty days back.\<close>

lemma imapDate_load: "imapDate 30 example_load_date = js ''2-Dec-2023''"
  by code_simp

lemma imapDate_poll: "imapDate 30 example_poll_date = js ''31-Jan-2024''"
  by code_simp

section \<open>The claims\<close>

subsection \<open>C1\<close>

text \<open>
  C1, evaluated where the code departs from it. After a start with no store file, two
  polls in a row that both find the unseen message 7 each send its notification: the
  second poll does not find the identifier recorded.
\<close>

theorem duplicate_post_without_store_file:
  "init_store Missing True = Inr store_without_uids
   \<and> (case fetchAndProcess cfg since example_world store_without_uids of
        (db1, evs1) \<Rightarrow>
          (case fetchAndProcess cfg since example_world db1 of
             (db2, evs2) \<Rightarrow>
               posts evs1 = [post_of cfg (message cfg example_parsed)]
               \<and> posts evs2 = [post_of cfg (message cfg example_parsed)]))"
  by (simp add: init_missing poll_example_without_uids posts_simps)

subsection \<open>C2\<close>

text \<open>
  C2, evaluated where the code departs from it. With no file at \<open>DB_FILE\<close>, the store that
  lines 38-42 build holds Low's default data \<open>{ lastEmailUid: null }\<close>: the object is
  truthy, so \<open>||=\<close> assigns nothing and there is no \<open>processedUids\<close> key. Every
  \<open>hasProcessed\<close> answers \<open>undefined\<close> and a \<open>markProcessed\<close> appends nothing.
\<close>

theorem no_seen_set_without_store_file:
  "init_store Missing True = Inr store_without_uids
   \<and> seen store_without_uids = None
   \<and> hasProcessed store_without_uids u = None
   \<and> markProcessed True store_without_uids u = (store_without_uids, None)"
proof -
  have s: "seen store_without_uids = None"
    by (simp add: seen_def store_without_uids_def)
  have "markProcessed True store_without_uids u = (store_without_uids, None)"
    using markProcessed_absent [OF s, of _ True u] by (simp add: store_without_uids_def)
  then show ?thesis
    by (simp add: init_missing s hasProcessed_seen)
qed

subsection \<open>C3\<close>

text \<open>
  C3, evaluated where the code departs from it. After a start with no store file, a poll
  sends the notification of message 7 and logs it as sent, and the identifier is still
  not in the store when the poll is over.
\<close>

theorem sent_uid_not_seen_without_store_file:
  "init_store Missing True = Inr store_without_uids
   \<and> snd (fetchAndProcess cfg since example_world store_without_uids) =
       [SearchReq [UNSEEN, SINCE since], FetchReq [7], Sleep 5000,
        post_of cfg (message cfg example_parsed), LogSent (UidNum 7) (js ''Hello'')]
   \<and> hasProcessed (fst (fetchAndProcess cfg since example_world store_without_uids)) (UidNum 7)
       = None"
proof -
  have s: "seen store_without_uids = None"
    by (simp add: seen_def store_without_uids_def)
  show ?thesis
    by (simp add: init_missing poll_example_without_uids hasProcessed_seen s)
qed

subsection \<open>C4\<close>

text \<open>
  C4, evaluated where the code departs from it. After a start with no store file, no run
  of \<open>markProcessed\<close> calls makes the store retain an identifier.
\<close>

theorem nothing_retained_without_store_file:
  "init_store Missing True = Inr store_without_uids
   \<and> seen (markProcessed_all store_without_uids calls) = None
   \<and> seen (markProcessed_all store_without_uids [(UidNum 1, True), (UidNum 2, True)]) = None"
proof -
  have s: "seen store_without_uids = None"
    by (simp add: seen_def store_without_uids_def)
  show ?thesis
    by (simp add: init_missing seen_markProcessed_all_absent [OF s])
qed

subsection \<open>C5\<close>

text \<open>
  C5. When every request to Telegram fails (the network fails or the status is not 2xx),
  \<open>sendTelegramMessage\<close> makes exactly four requests, waits 1000, 2000 and 4000 ms between
  them (each wait twice the one before) and ends with the error of the fourth request.
  The handler logs that error, leaves the store as it was (the message is not marked),
  and the messages after it in the stream are handled all the same.
\<close>

theorem sender_retry_bound:
  assumes "\<forall>k. failing (transport m k)"
    and "parse_result m = Inr p"
    and "hasProcessed db (message_uid m) \<noteq> Some True"
  shows "sendTelegramMessage cfg (transport m) txt =
           ([post_of cfg txt, Sleep 1000, post_of cfg txt, Sleep 2000,
             post_of cfg txt, Sleep 4000, post_of cfg txt],
            Inl (failure_of (transport m 4)))
       \<and> length (posts (fst (sendTelegramMessage cfg (transport m) txt))) = 4
       \<and> on_body cfg db m =
           (db, Sleep 5000 # fst (sendTelegramMessage cfg (transport m) (message cfg p))
                  @ [LogSendFailed (failure_of (transport m 4))])
       \<and> process_stream cfg db (m # ms) =
           (fst (process_stream cfg db ms),
            snd (on_body cfg db m) @ snd (process_stream cfg db ms))"
proof -
  have f: "failing (transport m k)" for k
    using assms(1) by simp
  have send: "sendTelegramMessage cfg (transport m) t =
           ([post_of cfg t, Sleep 1000, post_of cfg t, Sleep 2000,
             post_of cfg t, Sleep 4000, post_of cfg t],
            Inl (failure_of (transport m 4)))" for t
    by (rule send_all_fail [of "transport m", OF f])
  have body: "on_body cfg db m =
           (db, [Sleep 5000, post_of cfg (message cfg p), Sleep 1000, post_of cfg (message cfg p),
                 Sleep 2000, post_of cfg (message cfg p), Sleep 4000, post_of cfg (message cfg p),
                 LogSendFailed (failure_of (transport m 4))])"
    by (rule on_body_send_failed [OF assms(2,3) f])
  show ?thesis
    by (simp add: send body posts_simps split: prod.splits)
qed

theorem sender_retry_bound_witness:
  "(\<forall>k. failing (transport example_failing_message k))
   \<and> parse_result example_failing_message = Inr example_parsed
   \<and> hasProcessed store_empty_uids (message_uid example_failing_message) \<noteq> Some True
   \<and> on_body example_config store_empty_uids example_failing_message =
       (store_empty_uids,
        [Sleep 5000, post_of example_config (message example_config example_parsed),
         Sleep 1000, post_of example_config (message example_config example_parsed),
         Sleep 2000, post_of example_config (message example_config example_parsed),
         Sleep 4000, post_of example_config (message example_config example_parsed),
         LogSendFailed (TelegramApiError 500 (js ''Internal Server Error''))])"
proof -
  have h1: "\<forall>k. failing (transport example_failing_message k)"
    by (simp add: example_failing_message_def failing_def res_ok_def)
  have h2: "parse_result example_failing_message = Inr example_parsed"
    by (simp add: example_failing_message_def)
  have h3: "hasProcessed store_empty_uids (message_uid example_failing_message) \<noteq> Some True"
    by (simp add: hasProcessed_def store_empty_uids_def)
  have e: "failure_of (transport example_failing_message 4)
             = TelegramApiError 500 (js ''Internal Server Error'')"
    by (simp add: example_failing_message_def failure_of_def)
  from sender_retry_bound [OF h1 h2 h3, of example_config]
  show ?thesis
    using h1 h2 h3 by (simp add: e)
qed

subsection \<open>C6\<close>

text \<open>
  C6. For every string, \<open>escapeHtml\<close> gives the string in which each \<open>&\<close> is \<open>&amp;\<close>, each
  \<open><\<close> is \<open>&lt;\<close>, each \<open>>\<close> is \<open>&gt;\<close> and every other code unit is as it was; no raw
  \<open><\<close> or \<open>>\<close> is left. The message embeds the sender, the subject, the date and the body
  text in this escaped form (the body trimmed after the escaping).
\<close>

theorem escapeHtml_entities:
  "escapeHtml s = escape_spec s
   \<and> lt \<notin> set (escapeHtml s) \<and> gt \<notin> set (escapeHtml s)
   \<and> message cfg p =
       js ''<b>New Email</b>'' @ [nl]
         @ js ''<b>From:</b> '' @ escape_spec (or_else (from_text p) (js ''Unknown'')) @ [nl]
         @ js ''<b>Subject:</b> '' @ escape_spec (or_else (subject p) (js ''(no subject)'')) @ [nl]
         @ js ''<b>Date:</b> '' @ escape_spec (case date_utc p of None \<Rightarrow> [] | Some d \<Rightarrow> d)
         @ [nl, nl] @ shorten (escape_spec (body_source p)) (MAX_BODY_CHARS cfg)
         @ attachmentsSummary (attachments p)"
  using escape_spec_no_markup [of s]
  by (simp add: escapeHtml_spec message_def bodyText_def)

subsection \<open>C7\<close>

text \<open>
  C7. For a maximum \<open>n\<close> of at least 1: a text longer than \<open>n\<close> is cut to exactly \<open>n\<close> code
  units, the first \<open>n - 1\<close> of the text and then the ellipsis; a text of at most \<open>n\<close> code
  units is returned as it is. The excerpt of the message is \<open>shorten\<close> of the escaped
  body text with the configured maximum.
\<close>

theorem shorten_excerpt:
  assumes "1 \<le> n"
  shows "(n < int (length s) \<longrightarrow>
            int (length (shorten s n)) = n \<and> last (shorten s n) = ellipsis
            \<and> butlast (shorten s n) = take (nat (n - 1)) s)
       \<and> (int (length s) \<le> n \<longrightarrow> shorten s n = s)
       \<and> bodyText cfg p = shorten (escapeHtml (body_source p)) (MAX_BODY_CHARS cfg)"
proof -
  have "int (length (shorten s n)) = n \<and> last (shorten s n) = ellipsis
        \<and> butlast (shorten s n) = take (nat (n - 1)) s" if "n < int (length s)"
  proof -
    have "shorten s n = take (nat (n - 1)) s @ [ellipsis]"
      using assms that by (rule shorten_long)
    moreover have "int (length (take (nat (n - 1)) s)) = n - 1"
      using assms that by simp
    ultimately show ?thesis by simp
  qed
  then show ?thesis
    by (simp add: shorten_short bodyText_def)
qed

theorem shorten_excerpt_witness:
  "(1::int) \<le> 1500
   \<and> int (length (shorten (replicate 2000 (0x61::jschar)) 1500)) = 1500
   \<and> last (shorten (replicate 2000 (0x61::jschar)) 1500) = ellipsis
   \<and> shorten (js ''hello'') 1500 = js ''hello''"
proof -
  have h: "(1::int) \<le> 1500" by simp
  have l: "(1500::int) < int (length (replicate 2000 (0x61::jschar)))" by simp
  have k: "int (length (js ''hello'')) \<le> 1500" by (simp add: js_def)
  have "int (length (shorten (replicate 2000 (0x61::jschar)) 1500)) = 1500
        \<and> last (shorten (replicate 2000 (0x61::jschar)) 1500) = ellipsis"
    using shorten_excerpt [OF h, of "replicate 2000 (0x61::jschar)" example_config example_parsed] l
    by blast
  moreover have "shorten (js ''hello'') 1500 = js ''hello''"
    using shorten_excerpt [OF h, of "js ''hello''" example_config example_parsed] k
    by blast
  ultimately show ?thesis
    using h by blast
qed

subsection \<open>C8\<close>

text \<open>
  C8. When the search succeeds and the mail client delivers one message for each UID it
  is asked to fetch, a poll asks for one fetch, of the first 50 UIDs of the search result
  (all of them when there are fewer), and runs the handler on the messages of that
  request and on no others: their number is the smaller of 50 and the number of results,
  each carries one of the first 50 UIDs, the store and the events of the poll are those
  of these handlers (here in the order of the stream), at most 50 notifications are
  logged as sent and at most 200 requests go to Telegram. When the results are distinct
  UIDs, none is recorded as seen and every notification goes through at once, the
  notifications sent are exactly those of the first 50 UIDs, one request each. For a
  result of 60 UIDs the handlers run on exactly 50 messages, those of the first 50, and
  the last 10 are left.
\<close>

theorem poll_processes_first_50:
  assumes "search_result w = Inr results"
    and "delivers_requested w (take 50 results)"
  shows "fetch_requests (snd (fetchAndProcess cfg since w db))
           = (if results = [] then [] else [take 50 results])
       \<and> (results \<noteq> [] \<longrightarrow>
            fetchAndProcess cfg since w db =
              (case fold (\<lambda>m (d, evs). (fst (on_body cfg d m), evs @ snd (on_body cfg d m)))
                      (fetch_stream w (take 50 results)) (db, []) of
                 (db', evs) \<Rightarrow>
                   (db', SearchReq [UNSEEN, SINCE since] # FetchReq (take 50 results) # evs
                      @ (case fetch_error w of None \<Rightarrow> [] | Some e \<Rightarrow> [LogFetchError e]))))
       \<and> length (fetch_stream w (take 50 results)) = min 50 (length results)
       \<and> (\<forall>m \<in> set (fetch_stream w (take 50 results)).
            \<exists>n \<in> set (take 50 results). attrs_uid m = Some n)
       \<and> length (sent_uids (snd (fetchAndProcess cfg since w db))) \<le> 50
       \<and> length (posts (snd (fetchAndProcess cfg since w db))) \<le> 200
       \<and> (0 \<notin> set results \<and> distinct results
            \<and> (\<forall>m \<in> set (fetch_stream w (take 50 results)).
                  deliverable m \<and> hasProcessed db (message_uid m) \<noteq> Some True) \<longrightarrow>
            mset (sent_uids (snd (fetchAndProcess cfg since w db)))
              = mset (map UidNum (take 50 results))
            \<and> length (posts (snd (fetchAndProcess cfg since w db))) = min 50 (length results))
       \<and> (length results = 60 \<longrightarrow>
            length (fetch_stream w (take 50 results)) = 50
            \<and> (\<exists>rest. results = take 50 results @ rest \<and> length rest = 10))"
proof -
  let ?ids = "take 50 results"
  let ?ms = "fetch_stream w ?ids"
  let ?tail = "case fetch_error w of None \<Rightarrow> [] | Some e \<Rightarrow> [LogFetchError e]"
  have len: "length ?ms = min 50 (length results)"
    using delivers_length [OF assms(2)] by simp
  have run: "fetchAndProcess cfg since w db =
           (if results = [] then (db, [SearchReq [UNSEEN, SINCE since]])
            else (fst (process_stream cfg db ?ms),
                  SearchReq [UNSEEN, SINCE since] # FetchReq ?ids
                    # snd (process_stream cfg db ?ms) @ ?tail))"
    using assms(1) by (simp add: fetchAndProcess_def Let_def split: prod.splits)
  have tail: "posts ?tail = []" "sent_uids ?tail = []" "fetch_requests ?tail = []"
    by (simp_all add: posts_simps sent_uids_simps fetch_requests_simps split: option.splits)
  have empty: "?ms = []" if "results = []"
    using len that by simp
  have posts_run: "posts (snd (fetchAndProcess cfg since w db)) = posts (snd (process_stream cfg db ?ms))"
    using empty by (simp add: run posts_simps posts_append tail)
  have sent_run: "sent_uids (snd (fetchAndProcess cfg since w db))
                    = sent_uids (snd (process_stream cfg db ?ms))"
    using empty by (simp add: run sent_uids_simps sent_uids_append tail)
  have A: "fetch_requests (snd (fetchAndProcess cfg since w db))
           = (if results = [] then [] else [?ids])"
    using fetch_requests_process_stream [of cfg db ?ms]
    by (simp add: run fetch_requests_append fetch_requests_simps tail)
  have B: "fetchAndProcess cfg since w db =
              (case fold (\<lambda>m (d, evs). (fst (on_body cfg d m), evs @ snd (on_body cfg d m)))
                      ?ms (db, []) of
                 (db', evs) \<Rightarrow>
                   (db', SearchReq [UNSEEN, SINCE since] # FetchReq ?ids # evs @ ?tail))"
    if "results \<noteq> []"
    using that by (simp add: run process_stream_fold split: prod.splits)
  have D: "\<forall>m \<in> set ?ms. \<exists>n \<in> set ?ids. attrs_uid m = Some n"
    using delivers_attrs [OF assms(2)] by blast
  have E1: "length (sent_uids (snd (fetchAndProcess cfg since w db))) \<le> 50"
    using process_stream_bounds [of cfg db ?ms] len by (simp add: sent_run)
  have E2: "length (posts (snd (fetchAndProcess cfg since w db))) \<le> 200"
  proof -
    have "length (posts (snd (process_stream cfg db ?ms))) \<le> 4 * length ?ms"
      using process_stream_bounds [of cfg db ?ms] by blast
    moreover have "length ?ms \<le> 50"
      using len by simp
    ultimately show ?thesis
      by (simp add: posts_run)
  qed
  have F: "mset (sent_uids (snd (fetchAndProcess cfg since w db))) = mset (map UidNum ?ids)
            \<and> length (posts (snd (fetchAndProcess cfg since w db))) = min 50 (length results)"
    if "0 \<notin> set results \<and> distinct results
        \<and> (\<forall>m \<in> set ?ms. deliverable m \<and> hasProcessed db (message_uid m) \<noteq> Some True)"
  proof -
    have z: "0 \<notin> set ?ids"
      using that set_take_subset [of 50 results] by blast
    have d: "distinct ?ids"
      using that by simp
    have fresh: "\<forall>m \<in> set ?ms. deliverable m \<and> hasProcessed db (message_uid m) \<noteq> Some True"
      using that by blast
    have "sent_uids (snd (process_stream cfg db ?ms)) = map message_uid ?ms
          \<and> length (posts (snd (process_stream cfg db ?ms))) = length ?ms"
      using fresh delivers_distinct [OF assms(2) z d] by (rule process_stream_deliverable)
    then show ?thesis
      using delivers_uids [OF assms(2) z] len by (simp add: sent_run posts_run)
  qed
  have G: "length ?ms = 50 \<and> (\<exists>rest. results = ?ids @ rest \<and> length rest = 10)"
    if "length results = 60"
  proof -
    have "results = ?ids @ drop 50 results" by simp
    moreover have "length (drop 50 results) = 10" using that by simp
    moreover have "length ?ms = 50" using len that by simp
    ultimately show ?thesis by blast
  qed
  show ?thesis
    apply (intro conjI impI)
    subgoal by (rule A)
    subgoal by (rule B)
    subgoal by (rule len)
    subgoal by (rule D)
    subgoal by (rule E1)
    subgoal by (rule E2)
    subgoal using F by blast
    subgoal using F by blast
    subgoal using G by blast
    subgoal using G by blast
    done
qed

theorem poll_processes_first_50_witness:
  "search_result example_world_60 = Inr [1..<61]
   \<and> delivers_requested example_world_60 (take 50 [1..<61])
   \<and> fetch_requests
        (snd (fetchAndProcess example_config (sinceDate example_load_date) example_world_60
                store_empty_uids))
       = [[1..<51]]
   \<and> length (posts
        (snd (fetchAndProcess example_config (sinceDate example_load_date) example_world_60
                store_empty_uids)))
       = 50
   \<and> mset (sent_uids
        (snd (fetchAndProcess example_config (sinceDate example_load_date) example_world_60
                store_empty_uids)))
       = mset (map UidNum [1..<51])"
proof -
  let ?evs = "snd (fetchAndProcess example_config (sinceDate example_load_date) example_world_60
                store_empty_uids)"
  have h: "search_result example_world_60 = Inr [1..<61]"
    by (simp add: example_world_60_def)
  have c: "delivers_requested example_world_60 (take 50 [1..<61])"
    by (simp add: delivers_requested_def example_world_60_def example_message_def comp_def)
  have t: "take 50 [1..<61] = [1..<51]" by simp
  have fresh: "\<forall>m \<in> set (fetch_stream example_world_60 (take 50 [1..<61])).
                 deliverable m \<and> hasProcessed store_empty_uids (message_uid m) \<noteq> Some True"
    by (auto simp: example_world_60_def example_message_def deliverable_def res_ok_def
          hasProcessed_def store_empty_uids_def)
  have pre: "0 \<notin> set [1..<61] \<and> distinct [1..<61]
        \<and> (\<forall>m \<in> set (fetch_stream example_world_60 (take 50 [1..<61])).
              deliverable m \<and> hasProcessed store_empty_uids (message_uid m) \<noteq> Some True)"
    using fresh by simp
  note inst = poll_processes_first_50 [OF h c, of example_config "sinceDate example_load_date"
      store_empty_uids]
  have a: "fetch_requests ?evs = (if [1..<61] = [] then [] else [take 50 [1..<61]])"
    using inst by blast
  have f: "mset (sent_uids ?evs) = mset (map UidNum (take 50 [1..<61]))
           \<and> length (posts ?evs) = min 50 (length [1..<61])"
    using inst pre by blast
  have a': "fetch_requests ?evs = [[1..<51]]"
    using a by (simp only: t) simp
  have f': "mset (sent_uids ?evs) = mset (map UidNum [1..<51]) \<and> length (posts ?evs) = 50"
    using f by (simp only: t) simp
  from h c a' f' show ?thesis by blast
qed

subsection \<open>C9\<close>

text \<open>
  C9 as stated fails: a process that loaded the module on 1 January 2024 searches
  \<open>SINCE 2-Dec-2023\<close> in every poll. In its poll of 1 March 2024 no search with the date
  thirty days before that poll, \<open>31-Jan-2024\<close>, is made.
\<close>

theorem poll_window_counterexample:
  "snd (fetchAndProcess example_config (sinceDate example_load_date) example_world
          store_without_uids)
     = [SearchReq [UNSEEN, SINCE (js ''2-Dec-2023'')], FetchReq [7], Sleep 5000,
        post_of example_config (message example_config example_parsed),
        LogSent (UidNum 7) (js ''Hello'')]
   \<and> imapDate 30 example_poll_date = js ''31-Jan-2024''
   \<and> SearchReq [UNSEEN, SINCE (imapDate 30 example_poll_date)]
       \<notin> set (snd (fetchAndProcess example_config (sinceDate example_load_date) example_world
                     store_without_uids))"
proof -
  have "js ''31-Jan-2024'' \<noteq> js ''2-Dec-2023''"
    by (simp add: js_def)
  then show ?thesis
    by (simp add: poll_example_without_uids sinceDate_def imapDate_load imapDate_poll post_of_def)
qed

text \<open>
  C9, amended. Every poll begins with a search for the messages that are unseen and
  received since the date thirty days before the day the process loaded the module
  (\<open>sinceDate\<close> is computed once, at load time, and is the same in every poll); when the
  search fails, the poll logs the error and returns with the store unchanged.
\<close>

theorem poll_search_criteria:
  "(\<exists>rest. snd (fetchAndProcess cfg (sinceDate loaded) w db)
             = SearchReq [UNSEEN, SINCE (imapDate 30 loaded)] # rest)
   \<and> (search_result w = Inl err \<longrightarrow>
        fetchAndProcess cfg (sinceDate loaded) w db
          = (db, [SearchReq [UNSEEN, SINCE (imapDate 30 loaded)], LogSearchError err]))"
  by (auto simp: fetchAndProcess_def sinceDate_def Let_def split: sum.splits prod.splits)

theorem poll_search_criteria_witness:
  "search_result example_world_search_fails = Inl (ImapError (js ''timeout''))
   \<and> fetchAndProcess example_config (sinceDate example_load_date) example_world_search_fails
        store_empty_uids
       = (store_empty_uids,
          [SearchReq [UNSEEN, SINCE (js ''2-Dec-2023'')], LogSearchError (ImapError (js ''timeout''))])"
proof -
  have h: "search_result example_world_search_fails = Inl (ImapError (js ''timeout''))"
    by (simp add: example_world_search_fails_def)
  from poll_search_criteria [of example_config example_load_date example_world_search_fails
      store_empty_uids "ImapError (js ''timeout'')"] h
  show ?thesis
    by (simp add: imapDate_load)
qed

subsection \<open>C10\<close>

text \<open>
  C10. For every attachment of the parsed mail, the message contains its line with the
  file name (or \<open>unnamed\<close>), the content type and the size exactly as they are, with no
  escaping. The mail whose attachment is called \<open>a<b.txt\<close> gives a message that ends with
  that name and its raw \<open><\<close>, where \<open>escapeHtml\<close> would have written \<open>a&lt;b.txt\<close>.
\<close>

theorem attachments_embedded_verbatim:
  assumes "a \<in> set (attachments p)"
  shows "(\<exists>pre post. message cfg p =
            pre @ [bullet] @ js '' '' @ or_else (filename a) (js ''unnamed'') @ js '' (''
              @ contentType a @ js '', '' @ show_nat (size_bytes a) @ js '' bytes)'' @ post)
       \<and> (\<exists>pre. message cfg example_mail_with_attachment =
            pre @ [nl] @ js ''Attachments (1):'' @ [nl] @ [bullet]
              @ js '' a<b.txt (text/plain, 3 bytes)'')
       \<and> escapeHtml (js ''a<b.txt'') = js ''a&lt;b.txt''"
proof -
  have one: "\<exists>pre post. message cfg p =
            pre @ [bullet] @ js '' '' @ or_else (filename a) (js ''unnamed'') @ js '' (''
              @ contentType a @ js '', '' @ show_nat (size_bytes a) @ js '' bytes)'' @ post"
    using message_contains_attachment_line [OF assms, of cfg]
    by (simp add: attachment_line_def)
  have "message cfg example_mail_with_attachment =
      (js ''<b>New Email</b>'' @ [nl]
       @ js ''<b>From:</b> ''
       @ escapeHtml (or_else (from_text example_mail_with_attachment) (js ''Unknown'')) @ [nl]
       @ js ''<b>Subject:</b> ''
       @ escapeHtml (or_else (subject example_mail_with_attachment) (js ''(no subject)'')) @ [nl]
       @ js ''<b>Date:</b> ''
       @ escapeHtml (case date_utc example_mail_with_attachment of None \<Rightarrow> [] | Some d \<Rightarrow> d)
       @ [nl, nl] @ bodyText cfg example_mail_with_attachment)
      @ [nl] @ js ''Attachments (1):'' @ [nl] @ [bullet] @ js '' a<b.txt (text/plain, 3 bytes)''"
    unfolding message_def example_summary by simp
  then have two: "\<exists>pre. message cfg example_mail_with_attachment =
            pre @ [nl] @ js ''Attachments (1):'' @ [nl] @ [bullet]
              @ js '' a<b.txt (text/plain, 3 bytes)''"
    by blast
  have three: "escapeHtml (js ''a<b.txt'') = js ''a&lt;b.txt''"
    by (simp add: escapeHtml_spec escape_spec_def escape_char_def js_def amp_def lt_def gt_def)
  from one two three show ?thesis by blast
qed

theorem attachments_embedded_verbatim_witness:
  "example_attachment \<in> set (attachments example_mail_with_attachment)
   \<and> (\<exists>pre post. message example_config example_mail_with_attachment =
         pre @ [bullet] @ js '' a<b.txt (text/plain, 3 bytes)'' @ post)"
proof -
  have h: "example_attachment \<in> set (attachments example_mail_with_attachment)"
    by (simp add: example_mail_with_attachment_def)
  have "\<exists>pre post. message example_config example_mail_with_attachment =
         pre @ [bullet] @ js '' a<b.txt (text/plain, 3 bytes)'' @ post"
    using attachments_embedded_verbatim [OF h, of example_config]
    by (simp add: example_attachment_def or_else_def show_nat_digit digit_def js_def)
  with h show ?thesis by blast
qed

end
